theory Spec2Isabelle
  imports Main
begin

section \<open>The node tree of the terminal renderer\<close>

text \<open>
  The renderer of \<^verbatim>\<open>packages/termui/src/index.ts\<close> works on mutable node objects that
  refer to each other: a node holds its parent, an element holds the array of its
  children. Objects are modelled by an explicit store: a node reference is a natural
  number, the store maps every reference to the fields of its object, and
  \<open>nextId\<close> is the first reference that no object has been allocated at.

  A node carries the fields that \<^verbatim>\<open>index.ts\<close> reads and writes: \<open>nodeName\<close>
  (\<^verbatim>\<open>'#text'\<close>, \<^verbatim>\<open>'#comment'\<close> or the tag of an element), \<open>parentNode\<close>
  (\<open>None\<close> is \<^verbatim>\<open>null\<close>), \<open>childNodes\<close> (elements only), \<open>nodeValue\<close> (text and
  comment nodes only), \<open>style\<close> and \<open>internal_transform\<close> (\<open>None\<close> while the property
  has never been assigned) and \<open>yogaNode\<close>, the handle of the layout node that the
  node owns (\<open>None\<close> is \<^verbatim>\<open>undefined\<close>). The type \<open>'v\<close> is the type of the values that
  \<^verbatim>\<open>patchProp\<close> receives.
\<close>

record 'v dnode =
  nodeName :: string
  parentNode :: "nat option"
  childNodes :: "nat list"
  nodeValue :: string
  style :: "'v option"
  internal_transform :: "'v option"
  yogaNode :: "nat option"

text \<open>
  The layout engine and the console are outside the repository. Every call that crosses
  that boundary is recorded, in order, in the state.
\<close>

datatype 'v layout_call =
    RemoveChild nat nat
  | UnsetMeasureFunc nat
  | FreeRecursive nat
  | ApplyStyles nat 'v

record 'v dom =
  heap :: "nat \<Rightarrow> 'v dnode"
  nextId :: nat
  layout_calls :: "'v layout_call list"
  console_error :: "string list list"

definition set_childNodes :: "nat \<Rightarrow> nat list \<Rightarrow> 'v dom \<Rightarrow> 'v dom" where
  "set_childNodes n cs s = s\<lparr>heap := (heap s)(n := (heap s n)\<lparr>childNodes := cs\<rparr>)\<rparr>"

definition set_parentNode :: "nat \<Rightarrow> nat option \<Rightarrow> 'v dom \<Rightarrow> 'v dom" where
  "set_parentNode n p s = s\<lparr>heap := (heap s)(n := (heap s n)\<lparr>parentNode := p\<rparr>)\<rparr>"

definition set_nodeValue :: "nat \<Rightarrow> string \<Rightarrow> 'v dom \<Rightarrow> 'v dom" where
  "set_nodeValue n v s = s\<lparr>heap := (heap s)(n := (heap s n)\<lparr>nodeValue := v\<rparr>)\<rparr>"

definition layout_call :: "'v layout_call \<Rightarrow> 'v dom \<Rightarrow> 'v dom" where
  "layout_call c s = s\<lparr>layout_calls := layout_calls s @ [c]\<rparr>"

subsection \<open>Array primitives\<close>

text \<open>
  \<^verbatim>\<open>Array.prototype.indexOf\<close>: the index of the first element identical to \<open>x\<close>, or
  \<open>-1\<close>.
\<close>

fun indexOf :: "'a list \<Rightarrow> 'a \<Rightarrow> int" where
  "indexOf [] x = - 1"
| "indexOf (y # ys) x =
     (if y = x then 0 else (let i = indexOf ys x in if i < 0 then - 1 else i + 1))"

text \<open>
  \<^verbatim>\<open>Array.prototype.splice(start, deleteCount)\<close> with no inserted items, for
  \<open>start\<close> not negative: the elements from \<open>start\<close> on, \<open>deleteCount\<close> of them at most,
  are taken out.
\<close>

definition splice_del :: "'a list \<Rightarrow> nat \<Rightarrow> nat \<Rightarrow> 'a list" where
  "splice_del xs start deleteCount = take start xs @ drop (start + deleteCount) xs"

text \<open>
  \<^verbatim>\<open>Array.prototype.map(callback)\<close>, for its effects: the length of the array is read
  once, before the first call; then, for \<open>k\<close> from zero up to that length, the array is
  read again, and the callback is called on the element at \<open>k\<close> if the array still has
  an index \<open>k\<close>. The array is given by \<open>arr\<close>, which reads it in the current state, so
  that a callback that changes the array changes what the next round sees. The
  argument \<open>m\<close> counts the rounds that are left. A callback that does not return
  (\<open>None\<close>) ends the loop.
\<close>

fun array_map :: "('a \<Rightarrow> 's \<Rightarrow> 's option) \<Rightarrow> ('s \<Rightarrow> 'a list) \<Rightarrow> nat \<Rightarrow> nat \<Rightarrow> 's \<Rightarrow> 's option" where
  "array_map callback arr k 0 s = Some s"
| "array_map callback arr k (Suc m) s =
     (if k < length (arr s)
      then (case callback (arr s ! k) s of
              None \<Rightarrow> None
            | Some s' \<Rightarrow> array_map callback arr (Suc k) m s')
      else array_map callback arr (Suc k) m s)"

subsection \<open>removeNode\<close>

text \<open>
  The part of \<^verbatim>\<open>removeNode\<close> after the recursion: when the node has a parent, the node
  is taken out of the parent's \<open>childNodes\<close> at its index, if it has one there; the
  layout node of the node, if it owns one, is removed from the layout node of the
  parent (if the parent owns one: \<^verbatim>\<open>yogaNode?.removeChild\<close>), loses its measure function
  and is freed with its subtree; the parent reference becomes \<^verbatim>\<open>null\<close>.
\<close>

definition removeNode_detach :: "nat \<Rightarrow> 'v dom \<Rightarrow> 'v dom" where
  "removeNode_detach node s =
     (case parentNode (heap s node) of
        None \<Rightarrow> s
      | Some parent \<Rightarrow>
          (let selfIndex = indexOf (childNodes (heap s parent)) node;
               s1 = (if selfIndex > - 1
                     then set_childNodes parent
                            (splice_del (childNodes (heap s parent)) (nat selfIndex) 1) s
                     else s);
               s2 = (case yogaNode (heap s1 node) of
                       None \<Rightarrow> s1
                     | Some y \<Rightarrow>
                         layout_call (FreeRecursive y)
                           (layout_call (UnsetMeasureFunc y)
                              (case yogaNode (heap s1 parent) of
                                 None \<Rightarrow> s1
                               | Some py \<Rightarrow> layout_call (RemoveChild py y) s1)))
           in set_parentNode node None s2))"

text \<open>
  \<^verbatim>\<open>removeNode\<close> calls itself on the children, through \<^verbatim>\<open>childNodes.map\<close>, before it
  detaches the node. Nothing in the code bounds the depth of that recursion (a store
  with a cycle of children never lets it return), so the model carries the depth that
  is left: \<open>removeNode fuel node s\<close> is \<open>None\<close> when the recursion needs more than
  \<open>fuel\<close> nested calls.
\<close>

primrec removeNode :: "nat \<Rightarrow> nat \<Rightarrow> 'v dom \<Rightarrow> 'v dom option" where
  "removeNode 0 node s = None"
| "removeNode (Suc fuel) node s =
     (case (if nodeName (heap s node) \<noteq> ''#comment'' \<and> nodeName (heap s node) \<noteq> ''#text''
            then array_map (removeNode fuel) (\<lambda>t. childNodes (heap t node)) 0
                   (length (childNodes (heap s node))) s
            else Some s) of
        None \<Rightarrow> None
      | Some s1 \<Rightarrow> Some (removeNode_detach node s1))"

subsection \<open>The other operations of the renderer\<close>

text \<open>
  \<^verbatim>\<open>patchProp(el, key, prevValue, nextValue)\<close>. \<^verbatim>\<open>applyStyles\<close> belongs to the layout
  side and is recorded as a call.
\<close>

definition patchProp :: "nat \<Rightarrow> string \<Rightarrow> 'v \<Rightarrow> 'v \<Rightarrow> 'v dom \<Rightarrow> 'v dom" where
  "patchProp el key prevValue nextValue s =
     (if key = ''style''
      then (let s1 = s\<lparr>heap := (heap s)(el := (heap s el)\<lparr>style := Some nextValue\<rparr>)\<rparr>
            in case yogaNode (heap s1 el) of
                 None \<Rightarrow> s1
               | Some y \<Rightarrow> layout_call (ApplyStyles y nextValue) s1)
      else if key = ''internal_transform''
      then s\<lparr>heap := (heap s)(el := (heap s el)\<lparr>internal_transform := Some nextValue\<rparr>)\<rparr>
      else s)"

text \<open>
  Modelled from the spec: \<^verbatim>\<open>DOMElement.insertNode\<close>, which \<^verbatim>\<open>dom.ts\<close> defines and
  the sources do not include. The spec, on the operation: "inserts \<^verbatim>\<open>node\<close> as a child
  of \<^verbatim>\<open>parent\<close>. If \<^verbatim>\<open>anchor\<close> is given and is currently a child of \<^verbatim>\<open>parent\<close>,
  \<^verbatim>\<open>node\<close> is inserted immediately before it; otherwise \<^verbatim>\<open>node\<close> is appended. Sets
  \<^verbatim>\<open>node.parent = parent\<close>."; on the renderer's \<^verbatim>\<open>insert\<close>: "must be idempotent-safe if
  called with a node already correctly positioned"; on the nodes: "A node appears in its
  parent's child sequence at most once." So a node that the child sequence of the parent
  already holds is taken out of it first, and the anchor is looked for in what is left.
\<close>

definition insertNode :: "nat \<Rightarrow> nat \<Rightarrow> nat option \<Rightarrow> 'v dom \<Rightarrow> 'v dom" where
  "insertNode parent el anchor s =
     (let cs = remove1 el (childNodes (heap s parent));
          cs' = (case anchor of
                   None \<Rightarrow> cs @ [el]
                 | Some a \<Rightarrow>
                     (if a \<in> set cs
                      then take (nat (indexOf cs a)) cs @ [el] @ drop (nat (indexOf cs a)) cs
                      else cs @ [el]))
      in set_parentNode el (Some parent) (set_childNodes parent cs' s))"

text \<open>\<^verbatim>\<open>insert(el, parent, anchor)\<close> of the renderer is \<^verbatim>\<open>parent.insertNode(el, anchor)\<close>.\<close>

definition insert_op :: "nat \<Rightarrow> nat \<Rightarrow> nat option \<Rightarrow> 'v dom \<Rightarrow> 'v dom" where
  "insert_op el parent anchor s = insertNode parent el anchor s"

text \<open>
  Modelled from the spec: the constructor of \<^verbatim>\<open>TextNode\<close> (\<^verbatim>\<open>dom.ts\<close>, not among the
  sources). The spec: "a fresh unattached TextNode", "a string value, no children".
  The new object takes the next free reference.
\<close>

definition new_TextNode :: "string \<Rightarrow> 'v dom \<Rightarrow> nat \<times> 'v dom" where
  "new_TextNode text s =
     (nextId s,
      s\<lparr>heap := (heap s)(nextId s :=
           \<lparr>nodeName = ''#text'', parentNode = None, childNodes = [], nodeValue = text,
            style = None, internal_transform = None, yogaNode = None\<rparr>),
        nextId := Suc (nextId s)\<rparr>)"

text \<open>
  \<^verbatim>\<open>nextSibling(node)\<close>. A read of the array past its end is \<^verbatim>\<open>undefined\<close>, which
  \<^verbatim>\<open>|| null\<close> turns into \<^verbatim>\<open>null\<close>; a node object is never falsy. The function returns
  the state with the result, so that what it changes can be stated.
\<close>

definition nextSibling :: "nat \<Rightarrow> 'v dom \<Rightarrow> nat option \<times> 'v dom" where
  "nextSibling node s =
     (case parentNode (heap s node) of
        None \<Rightarrow> (None, s)
      | Some parent \<Rightarrow>
          (let index = indexOf (childNodes (heap s parent)) node
           in (if index \<ge> 0 \<and> nat (index + 1) < length (childNodes (heap s parent))
               then Some (childNodes (heap s parent) ! nat (index + 1))
               else None, s)))"

text \<open>
  \<^verbatim>\<open>setElementText(node, text)\<close>: \<^verbatim>\<open>childNodes.find\<close> gives the first child whose
  \<open>nodeName\<close> is \<^verbatim>\<open>'#text'\<close>.
\<close>

definition setElementText :: "nat \<Rightarrow> string \<Rightarrow> 'v dom \<Rightarrow> 'v dom" where
  "setElementText node text s =
     (case find (\<lambda>c. nodeName (heap s c) = ''#text'') (childNodes (heap s node)) of
        Some textNode \<Rightarrow> set_nodeValue textNode text s
      | None \<Rightarrow> (case new_TextNode text s of (t, s1) \<Rightarrow> insertNode node t None s1))"

text \<open>
  \<^verbatim>\<open>setText(node, text)\<close>. On a node that is neither a text nor a comment node it
  prints to the error console and then reads \<^verbatim>\<open>this.setElementText\<close>. What \<^verbatim>\<open>this\<close> is
  depends on the call: the options object, when the function is called as a method of
  it, or \<^verbatim>\<open>undefined\<close>, when it is called as a plain function; reading a property of
  \<^verbatim>\<open>undefined\<close> throws a \<^verbatim>\<open>TypeError\<close>. The result is the error thrown, if any, and
  the state, which keeps what was done before the error.
\<close>

datatype js_error = TypeError

datatype this_value = ThisUndefined | ThisOptions

definition setText ::
    "this_value \<Rightarrow> nat \<Rightarrow> string \<Rightarrow> 'v dom \<Rightarrow> js_error option \<times> 'v dom" where
  "setText receiver node text s =
     (if nodeName (heap s node) = ''#text'' \<or> nodeName (heap s node) = ''#comment''
      then (None, set_nodeValue node text s)
      else (let s1 = s\<lparr>console_error := console_error s @ [[''TODO: setText'', text]]\<rparr>
            in case receiver of
                 ThisUndefined \<Rightarrow> (Some TypeError, s1)
               | ThisOptions \<Rightarrow> (None, setElementText node text s1)))"

text \<open>
  The options object is written in the call of \<^verbatim>\<open>createRenderer\<close> and kept nowhere else.
  \<^verbatim>\<open>createRenderer\<close> (of the framework, outside the repository) takes the functions
  out of the object and calls them as plain functions: the renderer's call of
  \<^verbatim>\<open>setText\<close> has no \<^verbatim>\<open>this\<close>.
\<close>

definition hostSetText :: "nat \<Rightarrow> string \<Rightarrow> 'v dom \<Rightarrow> js_error option \<times> 'v dom" where
  "hostSetText node text s = setText ThisUndefined node text s"

subsection \<open>Sequences of insert and remove calls\<close>

datatype dom_op = Insert nat nat "nat option" | Remove nat

text \<open>
  A sequence of calls of the renderer's \<^verbatim>\<open>insert(el, parent, anchor)\<close> and
  \<^verbatim>\<open>remove(node)\<close>, each \<^verbatim>\<open>remove\<close> with the recursion depth \<open>fuel\<close>.
\<close>

fun run_ops :: "nat \<Rightarrow> dom_op list \<Rightarrow> 'v dom \<Rightarrow> 'v dom option" where
  "run_ops fuel [] s = Some s"
| "run_ops fuel (Insert el parent anchor # ops) s =
     run_ops fuel ops (insert_op el parent anchor s)"
| "run_ops fuel (Remove node # ops) s =
     (case removeNode fuel node s of
        None \<Rightarrow> None
      | Some s' \<Rightarrow> run_ops fuel ops s')"

text \<open>
  The tree-consistency property, over the allocated nodes: a node that records a parent
  is in the \<open>childNodes\<close> of that parent, and no \<open>childNodes\<close> holds a node twice.
\<close>

definition tree_consistent :: "'v dom \<Rightarrow> bool" where
  "tree_consistent s =
     (\<forall>n \<in> set [0 ..< nextId s].
        (case parentNode (heap s n) of
           None \<Rightarrow> True
         | Some p \<Rightarrow> n \<in> set (childNodes (heap s p)))
        \<and> distinct (childNodes (heap s n)))"

text \<open>
  A rank for the recursion of \<^verbatim>\<open>removeNode\<close>: the children of an allocated node are
  allocated and of lower rank, so that no chain of children comes back to a node.
\<close>

definition ranked :: "(nat \<Rightarrow> nat) \<Rightarrow> 'v dom \<Rightarrow> bool" where
  "ranked h s =
     (\<forall>p \<in> set [0 ..< nextId s]. \<forall>c \<in> set (childNodes (heap s p)). c < nextId s \<and> h c < h p)"

subsection \<open>Concrete states\<close>

definition blank_node :: "'v dnode" where
  "blank_node = \<lparr>nodeName = '''', parentNode = None, childNodes = [], nodeValue = '''',
     style = None, internal_transform = None, yogaNode = None\<rparr>"

definition mk_node :: "string \<Rightarrow> nat option \<Rightarrow> nat list \<Rightarrow> string \<Rightarrow> nat option \<Rightarrow> 'v dnode" where
  "mk_node name parent children val yoga =
     \<lparr>nodeName = name, parentNode = parent, childNodes = children, nodeValue = val,
      style = None, internal_transform = None, yogaNode = yoga\<rparr>"

fun heap_of :: "'v dnode list \<Rightarrow> nat \<Rightarrow> 'v dnode" where
  "heap_of [] n = blank_node"
| "heap_of (x # xs) n = (case n of 0 \<Rightarrow> x | Suc m \<Rightarrow> heap_of xs m)"

definition dom_of :: "'v dnode list \<Rightarrow> 'v dom" where
  "dom_of ns = \<lparr>heap = heap_of ns, nextId = length ns, layout_calls = [], console_error = []\<rparr>"

text \<open>An element \<^verbatim>\<open>tui-box\<close> with two text children, all three with a layout node.\<close>

definition box_two_texts :: "nat dom" where
  "box_two_texts = dom_of
     [mk_node ''tui-box'' None [1, 2] '''' (Some 10),
      mk_node ''#text'' (Some 0) [] ''a'' (Some 11),
      mk_node ''#text'' (Some 0) [] ''b'' (Some 12)]"

section \<open>The lifecycle of the application\<close>

subsection \<open>TuiError\<close>

text \<open>
  The decimal text of an integer, as a template literal prints a number that is an
  integer.
\<close>

function show_nat :: "nat \<Rightarrow> string" where
  "show_nat n =
     (if n < 10 then [char_of (48 + n)] else show_nat (n div 10) @ [char_of (48 + n mod 10)])"
  by pat_completeness auto
termination
  by (relation "measure (\<lambda>n. n)") auto

declare show_nat.simps [simp del]

definition show_int :: "int \<Rightarrow> string" where
  "show_int i = (if i < 0 then ''-'' @ show_nat (nat (- i)) else show_nat (nat i))"

record TuiError =
  code :: "int option"
  signal :: "string option"
  message :: string

text \<open>
  The constructor of \<^verbatim>\<open>TuiError\<close>. In the template of the message a \<^verbatim>\<open>null\<close> signal
  prints as \<^verbatim>\<open>null\<close>, and the code is printed when it is truthy: neither \<^verbatim>\<open>null\<close>
  nor zero.
\<close>

definition new_TuiError :: "int option \<Rightarrow> string option \<Rightarrow> TuiError" where
  "new_TuiError exitCode signalName =
     \<lparr>code = exitCode, signal = signalName,
      message = ''Program Interrupted with '' @ [CHR 0x22]
        @ (case signalName of None \<Rightarrow> ''null'' | Some sg \<Rightarrow> sg) @ [CHR 0x22] @ '' ''
        @ (case exitCode of
             None \<Rightarrow> ''''
           | Some c \<Rightarrow> if c \<noteq> 0 then ''('' @ show_int c @ '')'' else '''')\<rparr>"

subsection \<open>The state that createApp closes over\<close>

text \<open>
  A promise is an object with a settlement; \<open>promises\<close> holds the promises that have
  been created, and a promise is referred to by its index there. The variables
  \<open>resolveExitPromise\<close> and \<open>rejectExitPromise\<close> hold either \<^verbatim>\<open>noop\<close> (\<open>None\<close>) or the
  resolving function of a promise (\<open>Some\<close> of that promise). \<open>interval\<close> is
  \<^verbatim>\<open>undefined\<close> (\<open>None\<close>) or the timer that \<^verbatim>\<open>setInterval(noop, 999999)\<close> returned, named
  by its delay. What the application does to the terminal, to the process and to the
  base application of the framework is recorded in \<open>events\<close>, in order, together with
  every settlement of a promise.
\<close>

datatype settlement = Pending | Fulfilled | Rejected TuiError

datatype event =
    ConsoleLog "int option" "string option"
  | SetInterval nat
  | ClearInterval nat
  | OnExit
  | RemoveOnExitListener
  | CursorHide
  | CursorShow
  | LogClear
  | LogDone
  | StdoutOn string
  | StdoutOff string
  | ProvideRootNode
  | BaseMount
  | BaseUnmount
  | Settled nat settlement

record app =
  promises :: "settlement list"
  exitPromise :: "nat option"
  resolveExitPromise :: "nat option"
  rejectExitPromise :: "nat option"
  interval :: "nat option"
  events :: "event list"

definition emit :: "event list \<Rightarrow> app \<Rightarrow> app" where
  "emit es a = a\<lparr>events := events a @ es\<rparr>"

text \<open>
  Calling the resolving function of a promise settles the promise if it is pending and
  does nothing otherwise; calling \<^verbatim>\<open>noop\<close> does nothing.
\<close>

definition settle :: "nat \<Rightarrow> settlement \<Rightarrow> app \<Rightarrow> app" where
  "settle h v a =
     (if h < length (promises a) \<and> promises a ! h = Pending
      then emit [Settled h v] (a\<lparr>promises := (promises a)[h := v]\<rparr>)
      else a)"

definition call_resolve :: "nat option \<Rightarrow> app \<Rightarrow> app" where
  "call_resolve f a = (case f of None \<Rightarrow> a | Some h \<Rightarrow> settle h Fulfilled a)"

definition call_reject :: "nat option \<Rightarrow> TuiError \<Rightarrow> app \<Rightarrow> app" where
  "call_reject f e a = (case f of None \<Rightarrow> a | Some h \<Rightarrow> settle h (Rejected e) a)"

text \<open>
  \<^verbatim>\<open>createApp\<close>, for the state it sets up. The argument is the \<^verbatim>\<open>waitUntilExit\<close>
  option, \<open>None\<close> when the caller does not give it; its default is \<^verbatim>\<open>true\<close>.
\<close>

definition createApp :: "bool option \<Rightarrow> app" where
  "createApp opt =
     (let waitUntilExit = (case opt of None \<Rightarrow> True | Some b \<Rightarrow> b)
      in \<lparr>promises = [], exitPromise = None, resolveExitPromise = None,
          rejectExitPromise = None,
          interval = (if waitUntilExit then Some 999999 else None),
          events = (if waitUntilExit then [SetInterval 999999] else []) @ [OnExit]\<rparr>)"

definition mount :: "app \<Rightarrow> app" where
  "mount a = emit [CursorHide, LogClear, StdoutOn ''resize'', ProvideRootNode, BaseMount] a"

definition unmount :: "app \<Rightarrow> app" where
  "unmount a = emit [StdoutOff ''resize'', RemoveOnExitListener, LogDone, BaseUnmount] a"

text \<open>\<^verbatim>\<open>waitUntilExit()\<close> returns the promise and the state.\<close>

definition waitUntilExit :: "app \<Rightarrow> nat \<times> app" where
  "waitUntilExit a =
     (case exitPromise a of
        None \<Rightarrow>
          (length (promises a),
           a\<lparr>promises := promises a @ [Pending],
             exitPromise := Some (length (promises a)),
             resolveExitPromise := Some (length (promises a)),
             rejectExitPromise := Some (length (promises a))\<rparr>)
      | Some h \<Rightarrow> (h, a))"

text \<open>
  The callback given to \<^verbatim>\<open>onExit\<close>. \<^verbatim>\<open>code !== 0\<close> holds of \<^verbatim>\<open>null\<close>; a timer object is
  truthy; \<^verbatim>\<open>clearInterval\<close> leaves the variable \<open>interval\<close> as it is.
\<close>

definition onExit_handler :: "int option \<Rightarrow> string option \<Rightarrow> app \<Rightarrow> app" where
  "onExit_handler exitCode signalName a =
     (let a0 = emit [ConsoleLog exitCode signalName] a
      in if exitCode \<noteq> Some 0
         then (case interval a0 of
                 None \<Rightarrow> a0
               | Some t \<Rightarrow>
                   (let a1 = emit [ClearInterval t] a0;
                        a2 = (if signalName = Some ''SIGINT''
                              then call_resolve (resolveExitPromise a1) a1
                              else call_reject (rejectExitPromise a1)
                                     (new_TuiError exitCode signalName) a1);
                        a3 = emit [CursorShow] a2
                    in unmount a3))
         else a0)"

subsection \<open>Sequences of calls on an application\<close>

datatype app_call = Mount | Unmount | WaitUntilExit | ExitNotification "int option" "string option"

fun app_step :: "app_call \<Rightarrow> app \<Rightarrow> app" where
  "app_step Mount a = mount a"
| "app_step Unmount a = unmount a"
| "app_step WaitUntilExit a = snd (waitUntilExit a)"
| "app_step (ExitNotification exitCode signalName) a = onExit_handler exitCode signalName a"

fun run_calls :: "app_call list \<Rightarrow> app \<Rightarrow> app" where
  "run_calls [] a = a"
| "run_calls (c # cs) a = run_calls cs (app_step c a)"

fun is_notification :: "app_call \<Rightarrow> bool" where
  "is_notification (ExitNotification exitCode signalName) = True"
| "is_notification c = False"

text \<open>
  \<open>occurs_before x y es\<close>: the event \<open>x\<close> occurs in \<open>es\<close>, and \<open>y\<close> occurs after its
  first occurrence.
\<close>

fun occurs_before :: "'a \<Rightarrow> 'a \<Rightarrow> 'a list \<Rightarrow> bool" where
  "occurs_before x y [] = False"
| "occurs_before x y (e # es) = (if e = x then y \<in> set es else occurs_before x y es)"

text \<open>
  What holds of the closure variables as long as no exit notification has been
  delivered: the two resolving functions are \<^verbatim>\<open>noop\<close> exactly while no promise has been
  created, and otherwise they are those of the promise in \<open>exitPromise\<close>, which is
  pending.
\<close>

definition app_ok :: "app \<Rightarrow> bool" where
  "app_ok a =
     (case exitPromise a of
        None \<Rightarrow> resolveExitPromise a = None \<and> rejectExitPromise a = None
      | Some h \<Rightarrow> resolveExitPromise a = Some h \<and> rejectExitPromise a = Some h
                 \<and> h < length (promises a) \<and> promises a ! h = Pending)"

text \<open>
  Two concrete runs: an application with the default options, and one constructed with
  \<^verbatim>\<open>waitUntilExit: false\<close>, each after one call of \<^verbatim>\<open>waitUntilExit()\<close>.
\<close>

definition waiting_app :: app where
  "waiting_app = run_calls [WaitUntilExit] (createApp None)"

definition waiting_app_no_keepalive :: app where
  "waiting_app_no_keepalive = run_calls [WaitUntilExit] (createApp (Some False))"

text \<open>
  A root element whose only child is a \<^verbatim>\<open>tui-box\<close> with two text children; every node
  owns a layout node.
\<close>

definition root_box_two_texts :: "nat dom" where
  "root_box_two_texts = dom_of
     [mk_node ''tui-root'' None [1] '''' (Some 10),
      mk_node ''tui-box'' (Some 0) [2, 3] '''' (Some 11),
      mk_node ''#text'' (Some 1) [] ''a'' (Some 12),
      mk_node ''#text'' (Some 1) [] ''b'' (Some 13)]"

section \<open>Properties of the lifecycle\<close>

subsection \<open>What the calls preserve\<close>

lemma app_ok_createApp: "app_ok (createApp opt)"
  by (simp add: app_ok_def createApp_def Let_def)

lemma app_ok_step: "app_ok a \<Longrightarrow> \<not> is_notification c \<Longrightarrow> app_ok (app_step c a)"
  by (cases c)
     (auto simp: app_ok_def mount_def unmount_def emit_def waitUntilExit_def nth_append
           split: option.splits)

lemma app_ok_run:
  "app_ok a \<Longrightarrow> \<forall>c \<in> set cs. \<not> is_notification c \<Longrightarrow> app_ok (run_calls cs a)"
  by (induction cs arbitrary: a) (simp_all add: app_ok_step)

lemma interval_settle: "interval (settle h v a) = interval a"
  by (simp add: settle_def emit_def)

lemma interval_step: "interval (app_step c a) = interval a"
  by (cases c)
     (auto simp: mount_def unmount_def emit_def waitUntilExit_def onExit_handler_def Let_def
                 call_resolve_def call_reject_def interval_settle
           split: option.splits)

lemma interval_run: "interval (run_calls cs a) = interval a"
  by (induction cs arbitrary: a) (simp_all add: interval_step)

lemma exitPromise_settle: "exitPromise (settle h v a) = exitPromise a"
  by (simp add: settle_def emit_def)

lemma exitPromise_step:
  "exitPromise a = Some h \<Longrightarrow> exitPromise (app_step c a) = Some h"
  by (cases c)
     (auto simp: mount_def unmount_def emit_def waitUntilExit_def onExit_handler_def Let_def
                 call_resolve_def call_reject_def exitPromise_settle
           split: option.splits)

lemma exitPromise_run:
  "exitPromise a = Some h \<Longrightarrow> exitPromise (run_calls cs a) = Some h"
  by (induction cs arbitrary: a) (simp_all add: exitPromise_step)

lemma exitPromise_after_wait: "\<exists>h. exitPromise (snd (waitUntilExit a)) = Some h"
  by (simp add: waitUntilExit_def split: option.splits)

lemma exitPromise_run_wait:
  "WaitUntilExit \<in> set cs \<Longrightarrow> \<exists>h. exitPromise (run_calls cs a) = Some h"
proof (induction cs arbitrary: a)
  case Nil
  then show ?case by simp
next
  case (Cons c cs)
  show ?case
  proof (cases "c = WaitUntilExit")
    case True
    obtain h where "exitPromise (snd (waitUntilExit a)) = Some h"
      using exitPromise_after_wait by blast
    then show ?thesis using True by (simp add: exitPromise_run)
  next
    case False
    then show ?thesis using Cons by simp
  qed
qed

lemma waitUntilExit_Some: "exitPromise a = Some h \<Longrightarrow> waitUntilExit a = (h, a)"
  by (simp add: waitUntilExit_def)

lemma handler_guarded:
  assumes "interval a = Some t" and "exitCode \<noteq> Some 0"
    and "exitPromise a = Some h" and "app_ok a"
  shows "onExit_handler exitCode signalName a =
     unmount (emit [CursorShow]
       (settle h (if signalName = Some ''SIGINT'' then Fulfilled
                  else Rejected (new_TuiError exitCode signalName))
          (emit [ClearInterval t] (emit [ConsoleLog exitCode signalName] a))))"
  using assms
  by (simp add: onExit_handler_def Let_def emit_def call_resolve_def call_reject_def app_ok_def)

lemma handler_code_zero:
  "onExit_handler (Some 0) signalName a = emit [ConsoleLog (Some 0) signalName] a"
  by (simp add: onExit_handler_def Let_def split: option.splits)

lemma handler_no_interval:
  "interval a = None \<Longrightarrow>
   onExit_handler exitCode signalName a = emit [ConsoleLog exitCode signalName] a"
  by (simp add: onExit_handler_def Let_def emit_def)

lemma settle_pending:
  assumes "h < length (promises a)" and "promises a ! h = Pending"
  shows "promises (settle h v a) = (promises a)[h := v]"
    and "events (settle h v a) = events a @ [Settled h v]"
  using assms by (simp_all add: settle_def emit_def)

lemma promises_step:
  "\<not> is_notification c \<Longrightarrow>
   promises (app_step c a) = promises a \<or> promises (app_step c a) = promises a @ [Pending]"
  by (cases c) (auto simp: mount_def unmount_def emit_def waitUntilExit_def split: option.splits)

subsection \<open>The exit handler and the promise of waitUntilExit\<close>

text \<open>
  Claim C1, as amended. Take an application constructed with \<^verbatim>\<open>waitUntilExit\<close> not
  \<^verbatim>\<open>false\<close> (so that the keep-alive timer exists), on which \<^verbatim>\<open>waitUntilExit()\<close> has been
  called and to which no exit notification has been delivered yet. The promise that
  \<^verbatim>\<open>waitUntilExit()\<close> returns is pending, and a notification delivered to the handler
  then fulfils it when the code is not \<^verbatim>\<open>0\<close> (\<^verbatim>\<open>null\<close> is not \<^verbatim>\<open>0\<close>) and the signal is
  \<^verbatim>\<open>SIGINT\<close>; rejects it with a \<^verbatim>\<open>TuiError\<close> whose \<open>code\<close> is the code and whose
  \<open>signal\<close> is the signal when the code is not \<^verbatim>\<open>0\<close> and the signal is not \<^verbatim>\<open>SIGINT\<close>;
  and leaves every promise as it is when the code is \<^verbatim>\<open>0\<close>, whatever the signal.
\<close>

theorem exit_handler_settlement:
  assumes "opt \<noteq> Some False" and "WaitUntilExit \<in> set cs"
    and "\<forall>c \<in> set cs. \<not> is_notification c"
  shows "let a = run_calls cs (createApp opt);
             h = fst (waitUntilExit a);
             a' = onExit_handler exitCode signalName a
         in (exitCode \<noteq> Some 0 \<and> signalName = Some ''SIGINT'' \<longrightarrow>
               promises a ! h = Pending \<and> promises a' ! h = Fulfilled)
          \<and> (exitCode \<noteq> Some 0 \<and> signalName \<noteq> Some ''SIGINT'' \<longrightarrow>
               promises a ! h = Pending
               \<and> promises a' ! h = Rejected (new_TuiError exitCode signalName)
               \<and> code (new_TuiError exitCode signalName) = exitCode
               \<and> signal (new_TuiError exitCode signalName) = signalName)
          \<and> (exitCode = Some 0 \<longrightarrow>
               promises a ! h = Pending \<and> promises a' = promises a)"
proof -
  define a where "a = run_calls cs (createApp opt)"
  obtain h where h: "exitPromise a = Some h"
    using exitPromise_run_wait [OF assms(2)] unfolding a_def by blast
  have ok: "app_ok a"
    unfolding a_def using app_ok_run [OF app_ok_createApp assms(3)] .
  have iv: "interval a = Some 999999"
    unfolding a_def using assms(1)
    by (cases opt) (auto simp: interval_run createApp_def)
  have hb: "h < length (promises a)" and hp: "promises a ! h = Pending"
    using ok h by (simp_all add: app_ok_def)
  have w: "fst (waitUntilExit a) = h"
    using h by (simp add: waitUntilExit_Some)
  have g: "exitCode \<noteq> Some 0 \<Longrightarrow>
      promises (onExit_handler exitCode signalName a) ! h =
        (if signalName = Some ''SIGINT'' then Fulfilled
         else Rejected (new_TuiError exitCode signalName))"
    using hb hp
    by (simp add: handler_guarded [OF iv _ h ok] unmount_def emit_def settle_def)
  have z: "promises (onExit_handler (Some 0) signalName a) = promises a"
    by (simp add: handler_code_zero emit_def)
  show ?thesis
    unfolding a_def [symmetric] Let_def w
    using g z hp by (auto simp: new_TuiError_def)
qed

theorem exit_handler_settlement_witness:
  "promises (onExit_handler (Some 1) None (run_calls [WaitUntilExit] (createApp None)))
     ! fst (waitUntilExit (run_calls [WaitUntilExit] (createApp None)))
   = Rejected (new_TuiError (Some 1) None)
   \<and> code (new_TuiError (Some 1) None) = Some 1
   \<and> signal (new_TuiError (Some 1) None) = None"
  using exit_handler_settlement [of None "[WaitUntilExit]" "Some 1" None]
  by (simp add: Let_def)

text \<open>
  Claim C1 as it is stated fails: with \<^verbatim>\<open>waitUntilExit: false\<close> the interrupt signal
  leaves the promise pending, and so does a notification with code \<^verbatim>\<open>0\<close> and the
  interrupt signal on an application with the default options.
\<close>

theorem exit_handler_settlement_counterexample:
  "promises (onExit_handler None (Some ''SIGINT'') waiting_app_no_keepalive)
     ! fst (waitUntilExit waiting_app_no_keepalive) = Pending
   \<and> promises (onExit_handler (Some 0) (Some ''SIGINT'') waiting_app)
     ! fst (waitUntilExit waiting_app) = Pending"
  by (simp add: waiting_app_def waiting_app_no_keepalive_def createApp_def waitUntilExit_def
        onExit_handler_def emit_def Let_def)

text \<open>
  Claim C5. \<^verbatim>\<open>waitUntilExit()\<close> is memoized: whatever calls come between (other calls
  of \<^verbatim>\<open>waitUntilExit()\<close>, \<^verbatim>\<open>mount\<close>, \<^verbatim>\<open>unmount\<close>, exit notifications), a later call
  returns the promise that the first call returned, and a second call changes nothing.
  The first call, made while no promise exists, creates one promise, which is pending;
  a call made when the promise exists leaves the state as it is. \<^verbatim>\<open>waitUntilExit()\<close>
  does nothing to the terminal or the process, and no call other than an exit
  notification changes the settlement of a promise.
\<close>

theorem waitUntilExit_memoized:
  "fst (waitUntilExit (run_calls cs (snd (waitUntilExit a)))) = fst (waitUntilExit a)
   \<and> waitUntilExit (snd (waitUntilExit a)) = waitUntilExit a
   \<and> (exitPromise a = None \<longrightarrow>
        fst (waitUntilExit a) = length (promises a)
        \<and> promises (snd (waitUntilExit a)) = promises a @ [Pending])
   \<and> (exitPromise a \<noteq> None \<longrightarrow> snd (waitUntilExit a) = a)
   \<and> events (snd (waitUntilExit a)) = events a
   \<and> (\<not> is_notification c \<longrightarrow>
        promises (app_step c a) = promises a
        \<or> promises (app_step c a) = promises a @ [Pending])"
proof -
  obtain h where h: "exitPromise (snd (waitUntilExit a)) = Some h"
    using exitPromise_after_wait by blast
  have fh: "fst (waitUntilExit a) = h"
    using h by (auto simp: waitUntilExit_def split: option.splits)
  have "exitPromise (run_calls cs (snd (waitUntilExit a))) = Some h"
    using h by (rule exitPromise_run)
  then have 1: "fst (waitUntilExit (run_calls cs (snd (waitUntilExit a)))) = fst (waitUntilExit a)"
    by (simp add: waitUntilExit_Some fh)
  have 2: "waitUntilExit (snd (waitUntilExit a)) = waitUntilExit a"
    by (auto simp: waitUntilExit_def split: option.splits)
  have 3: "exitPromise a = None \<longrightarrow>
        fst (waitUntilExit a) = length (promises a)
        \<and> promises (snd (waitUntilExit a)) = promises a @ [Pending]"
    by (simp add: waitUntilExit_def)
  have 4: "exitPromise a \<noteq> None \<longrightarrow> snd (waitUntilExit a) = a"
    by (auto simp: waitUntilExit_def)
  have 5: "events (snd (waitUntilExit a)) = events a"
    by (simp add: waitUntilExit_def split: option.splits)
  show ?thesis using 1 2 3 4 5 promises_step by blast
qed

theorem waitUntilExit_memoized_witness:
  "exitPromise (createApp None) = None
   \<and> fst (waitUntilExit (createApp None)) = 0
   \<and> promises (snd (waitUntilExit (createApp None))) = [Pending]
   \<and> fst (waitUntilExit (run_calls [Mount, WaitUntilExit, Unmount]
              (snd (waitUntilExit (createApp None))))) = 0
   \<and> \<not> is_notification Mount
   \<and> promises (app_step Mount (createApp None)) = promises (createApp None)"
  using waitUntilExit_memoized [of "[Mount, WaitUntilExit, Unmount]" "createApp None" Mount]
  by (simp add: createApp_def mount_def unmount_def emit_def waitUntilExit_def)

text \<open>
  Claim C10. An application constructed with \<^verbatim>\<open>waitUntilExit: false\<close> has no keep-alive
  timer, whatever calls are made on it; and the exit handler then, for every code and
  every signal, only prints its arguments: it settles no promise, does not show the
  cursor and does not call \<^verbatim>\<open>unmount()\<close>.
\<close>

theorem no_keepalive_handler_inert:
  "interval (run_calls cs (createApp (Some False))) = None
   \<and> promises (onExit_handler exitCode signalName (run_calls cs (createApp (Some False))))
       = promises (run_calls cs (createApp (Some False)))
   \<and> events (onExit_handler exitCode signalName (run_calls cs (createApp (Some False))))
       = events (run_calls cs (createApp (Some False))) @ [ConsoleLog exitCode signalName]
   \<and> onExit_handler exitCode signalName (run_calls cs (createApp (Some False)))
       = emit [ConsoleLog exitCode signalName] (run_calls cs (createApp (Some False)))"
proof -
  have iv: "interval (run_calls cs (createApp (Some False))) = None"
    by (simp add: interval_run createApp_def)
  show ?thesis
    using iv by (simp add: handler_no_interval emit_def)
qed

theorem no_keepalive_handler_inert_witness:
  "promises (onExit_handler None (Some ''SIGINT'') waiting_app_no_keepalive) = [Pending]
   \<and> events (onExit_handler None (Some ''SIGINT'') waiting_app_no_keepalive) =
       [OnExit, ConsoleLog None (Some ''SIGINT'')]"
  using no_keepalive_handler_inert [of "[WaitUntilExit]" None "Some ''SIGINT''"]
  by (simp add: waiting_app_no_keepalive_def createApp_def waitUntilExit_def emit_def)

text \<open>
  Claim C6, as amended. Under the conditions of C1, on a notification whose code is not
  \<^verbatim>\<open>0\<close>, the handler clears the timer, then settles the promise, then shows the cursor,
  then runs \<^verbatim>\<open>unmount()\<close>, in this order: the cursor is restored and \<^verbatim>\<open>unmount()\<close>
  is called after the promise is settled, in the same run of the handler.
\<close>

theorem exit_handler_order:
  assumes "opt \<noteq> Some False" and "WaitUntilExit \<in> set cs"
    and "\<forall>c \<in> set cs. \<not> is_notification c" and "exitCode \<noteq> Some 0"
  shows "events (onExit_handler exitCode signalName (run_calls cs (createApp opt))) =
           events (run_calls cs (createApp opt))
           @ [ConsoleLog exitCode signalName, ClearInterval 999999,
              Settled (fst (waitUntilExit (run_calls cs (createApp opt))))
                (if signalName = Some ''SIGINT'' then Fulfilled
                 else Rejected (new_TuiError exitCode signalName)),
              CursorShow,
              StdoutOff ''resize'', RemoveOnExitListener, LogDone, BaseUnmount]"
proof -
  define a where "a = run_calls cs (createApp opt)"
  obtain h where h: "exitPromise a = Some h"
    using exitPromise_run_wait [OF assms(2)] unfolding a_def by blast
  have ok: "app_ok a"
    unfolding a_def using app_ok_run [OF app_ok_createApp assms(3)] .
  have iv: "interval a = Some 999999"
    unfolding a_def using assms(1)
    by (cases opt) (auto simp: interval_run createApp_def)
  have hb: "h < length (promises a)" and hp: "promises a ! h = Pending"
    using ok h by (simp_all add: app_ok_def)
  have w: "fst (waitUntilExit a) = h"
    using h by (simp add: waitUntilExit_Some)
  show ?thesis
    unfolding a_def [symmetric] w
    using hb hp
    by (simp add: handler_guarded [OF iv assms(4) h ok] unmount_def emit_def settle_def)
qed

theorem exit_handler_order_witness:
  "events (onExit_handler None (Some ''SIGINT'') waiting_app) =
     events waiting_app
     @ [ConsoleLog None (Some ''SIGINT''), ClearInterval 999999, Settled 0 Fulfilled,
        CursorShow, StdoutOff ''resize'', RemoveOnExitListener, LogDone, BaseUnmount]"
  using exit_handler_order [of None "[WaitUntilExit]" None "Some ''SIGINT''"]
  by (simp add: waiting_app_def createApp_def waitUntilExit_def)

text \<open>
  Claim C6 as it is stated fails: on the interrupt signal the promise is fulfilled
  before the cursor is shown and before \<^verbatim>\<open>unmount()\<close> runs, not after.
\<close>

theorem exit_handler_order_counterexample:
  "promises (onExit_handler None (Some ''SIGINT'') waiting_app) ! 0 = Fulfilled
   \<and> occurs_before (Settled 0 Fulfilled) CursorShow
        (events (onExit_handler None (Some ''SIGINT'') waiting_app))
   \<and> \<not> occurs_before CursorShow (Settled 0 Fulfilled)
        (events (onExit_handler None (Some ''SIGINT'') waiting_app))
   \<and> occurs_before (Settled 0 Fulfilled) BaseUnmount
        (events (onExit_handler None (Some ''SIGINT'') waiting_app))
   \<and> \<not> occurs_before BaseUnmount (Settled 0 Fulfilled)
        (events (onExit_handler None (Some ''SIGINT'') waiting_app))"
  by (simp add: waiting_app_def createApp_def waitUntilExit_def onExit_handler_def emit_def
        Let_def call_resolve_def settle_def unmount_def)

section \<open>Properties of the node tree\<close>

subsection \<open>indexOf and splice\<close>

lemma indexOf_ge: "- 1 \<le> indexOf xs x"
  by (induction xs) (auto simp: Let_def)

lemma indexOf_notin: "x \<notin> set xs \<Longrightarrow> indexOf xs x = - 1"
  by (induction xs) (auto simp: Let_def)

lemma indexOf_in_nonneg: "x \<in> set xs \<Longrightarrow> 0 \<le> indexOf xs x"
  by (induction xs) (auto simp: Let_def)

lemma indexOf_neg_iff: "indexOf xs x > - 1 \<longleftrightarrow> x \<in> set xs"
  using indexOf_notin [of x xs] indexOf_in_nonneg [of x xs] by force

lemma indexOf_append: "x \<notin> set xs \<Longrightarrow> indexOf (xs @ x # ys) x = int (length xs)"
  by (induction xs) (auto simp: Let_def)

lemma splice_del_append:
  "splice_del (xs @ x # ys) (length xs) 1 = xs @ ys"
  by (simp add: splice_del_def)

lemma splice_del_indexOf:
  "x \<in> set xs \<Longrightarrow> splice_del xs (nat (indexOf xs x)) 1 = remove1 x xs"
proof -
  assume "x \<in> set xs"
  then obtain ys zs where xs: "xs = ys @ x # zs" and ys: "x \<notin> set ys"
    by (auto dest: split_list_first)
  show ?thesis
    using ys unfolding xs
    by (simp add: indexOf_append remove1_append splice_del_def)
qed

subsection \<open>nextSibling and patchProp\<close>

text \<open>
  Claim C9. \<^verbatim>\<open>nextSibling(node)\<close> changes nothing. It returns \<^verbatim>\<open>null\<close> when the node has
  no parent; when the node is in the \<open>childNodes\<close> of its parent, it returns the child
  that follows its first occurrence there, and \<^verbatim>\<open>null\<close> when nothing follows (the node
  is the last child); it returns \<^verbatim>\<open>null\<close> as well when the \<open>childNodes\<close> of the parent
  do not hold the node.
\<close>

theorem nextSibling_spec:
  "snd (nextSibling node s) = s
   \<and> (parentNode (heap s node) = None \<longrightarrow> fst (nextSibling node s) = None)
   \<and> (\<forall>parent before after.
         parentNode (heap s node) = Some parent
         \<and> childNodes (heap s parent) = before @ node # after
         \<and> node \<notin> set before \<longrightarrow>
         fst (nextSibling node s) = (case after of [] \<Rightarrow> None | next # rest \<Rightarrow> Some next))
   \<and> (\<forall>parent.
         parentNode (heap s node) = Some parent
         \<and> node \<notin> set (childNodes (heap s parent)) \<longrightarrow>
         fst (nextSibling node s) = None)"
proof -
  have 1: "snd (nextSibling node s) = s"
    by (simp add: nextSibling_def Let_def split: option.splits)
  have 2: "parentNode (heap s node) = None \<longrightarrow> fst (nextSibling node s) = None"
    by (simp add: nextSibling_def)
  have 3: "fst (nextSibling node s) = (case after of [] \<Rightarrow> None | next # rest \<Rightarrow> Some next)"
    if "parentNode (heap s node) = Some parent"
      and "childNodes (heap s parent) = before @ node # after"
      and "node \<notin> set before"
    for parent before after
    using that
    by (cases after) (simp_all add: nextSibling_def Let_def indexOf_append nat_add_distrib nth_append)
  have 4: "fst (nextSibling node s) = None"
    if "parentNode (heap s node) = Some parent"
      and "node \<notin> set (childNodes (heap s parent))"
    for parent
    using that by (simp add: nextSibling_def Let_def indexOf_notin)
  show ?thesis using 1 2 3 4 by blast
qed

theorem nextSibling_spec_witness:
  "parentNode (heap box_two_texts 1) = Some 0
   \<and> childNodes (heap box_two_texts 0) = [] @ 1 # [2]
   \<and> fst (nextSibling 1 box_two_texts) = Some 2
   \<and> fst (nextSibling 2 box_two_texts) = None
   \<and> parentNode (heap box_two_texts 0) = None
   \<and> fst (nextSibling 0 box_two_texts) = None"
  using nextSibling_spec [of 1 box_two_texts] nextSibling_spec [of 2 box_two_texts]
    nextSibling_spec [of 0 box_two_texts]
  by (simp add: box_two_texts_def dom_of_def mk_node_def nextSibling_def eval_nat_numeral)

text \<open>
  Claim C8. \<^verbatim>\<open>patchProp(el, key, prevValue, nextValue)\<close> with the key \<^verbatim>\<open>style\<close> records
  the value as the \<open>style\<close> of the element, changes no other field of any node, and
  applies the style to the layout node of the element, when the element owns one, by
  one call of \<^verbatim>\<open>applyStyles\<close>; with the key \<^verbatim>\<open>internal_transform\<close> it stores the value
  as the \<open>internal_transform\<close> of the element and calls nothing; with every other key
  it leaves the state as it is. No branch of it fails.
\<close>

theorem patchProp_spec:
  "(key = ''style'' \<longrightarrow>
      heap (patchProp el key prevValue nextValue s) =
        (heap s)(el := (heap s el)\<lparr>style := Some nextValue\<rparr>)
      \<and> layout_calls (patchProp el key prevValue nextValue s) =
          layout_calls s @ (case yogaNode (heap s el) of
                              None \<Rightarrow> []
                            | Some y \<Rightarrow> [ApplyStyles y nextValue]))
   \<and> (key = ''internal_transform'' \<longrightarrow>
      heap (patchProp el key prevValue nextValue s) =
        (heap s)(el := (heap s el)\<lparr>internal_transform := Some nextValue\<rparr>)
      \<and> layout_calls (patchProp el key prevValue nextValue s) = layout_calls s)
   \<and> (key \<noteq> ''style'' \<and> key \<noteq> ''internal_transform'' \<longrightarrow>
      patchProp el key prevValue nextValue s = s)
   \<and> nextId (patchProp el key prevValue nextValue s) = nextId s
   \<and> console_error (patchProp el key prevValue nextValue s) = console_error s"
  by (simp add: patchProp_def Let_def layout_call_def split: option.splits)

theorem patchProp_spec_witness:
  "style (heap (patchProp 0 ''style'' 1 2 box_two_texts) 0) = Some 2
   \<and> layout_calls (patchProp 0 ''style'' 1 2 box_two_texts) = [ApplyStyles 10 2]
   \<and> internal_transform (heap (patchProp 0 ''internal_transform'' 1 2 box_two_texts) 0) = Some 2
   \<and> layout_calls (patchProp 0 ''internal_transform'' 1 2 box_two_texts) = []
   \<and> patchProp 0 ''key'' 1 2 box_two_texts = box_two_texts"
  using patchProp_spec [of "''style''" 0 1 2 box_two_texts]
    patchProp_spec [of "''internal_transform''" 0 1 2 box_two_texts]
    patchProp_spec [of "''key''" 0 1 2 box_two_texts]
  by (simp add: box_two_texts_def dom_of_def mk_node_def)

subsection \<open>removeNode on an element with two children\<close>

text \<open>
  Claim C2 says that \<^verbatim>\<open>remove(node)\<close> removes all the children of the node first. The
  code calls \<^verbatim>\<open>node.childNodes.map(removeNode)\<close>, and each call takes the child out of
  the array that \<^verbatim>\<open>map\<close> is walking: after the first child is removed, the second one
  is at index \<open>0\<close>, and \<^verbatim>\<open>map\<close> goes on at index \<open>1\<close>, past the end. On an element
  with two text children, whatever depth the recursion is allowed, the second child is
  still a child of the element afterwards, still records the element as its parent, and
  its layout node is neither detached nor freed.
\<close>

theorem removeNode_skips_child:
  "map_option (\<lambda>s'. (childNodes (heap s' 0), parentNode (heap s' 1), parentNode (heap s' 2),
                       layout_calls s'))
     (removeNode (Suc (Suc fuel)) 0 box_two_texts)
   = Some ([2], None, Some 0, [RemoveChild 10 11, UnsetMeasureFunc 11, FreeRecursive 11])"
  by (simp add: box_two_texts_def dom_of_def mk_node_def removeNode_detach_def
        set_childNodes_def set_parentNode_def layout_call_def splice_del_def eval_nat_numeral)

subsection \<open>setText and setElementText\<close>

lemma find_first:
  "P t \<Longrightarrow> \<forall>c \<in> set before. \<not> P c \<Longrightarrow> find P (before @ t # after) = Some t"
  by (induction before) auto

lemma setElementText_cases:
  "(\<forall>before t after.
         childNodes (heap s node) = before @ t # after
         \<and> nodeName (heap s t) = ''#text''
         \<and> (\<forall>c \<in> set before. nodeName (heap s c) \<noteq> ''#text'') \<longrightarrow>
         setElementText node text s =
           s\<lparr>heap := (heap s)(t := (heap s t)\<lparr>nodeValue := text\<rparr>)\<rparr>)
   \<and> ((\<forall>c \<in> set (childNodes (heap s node)). nodeName (heap s c) \<noteq> ''#text'')
        \<and> node < nextId s \<and> nextId s \<notin> set (childNodes (heap s node)) \<longrightarrow>
         heap (setElementText node text s) =
           (heap s)(node := (heap s node)\<lparr>childNodes := childNodes (heap s node) @ [nextId s]\<rparr>,
                    nextId s := \<lparr>nodeName = ''#text'', parentNode = Some node,
                                 childNodes = [], nodeValue = text, style = None,
                                 internal_transform = None, yogaNode = None\<rparr>)
         \<and> nextId (setElementText node text s) = Suc (nextId s)
         \<and> layout_calls (setElementText node text s) = layout_calls s
         \<and> console_error (setElementText node text s) = console_error s)"
proof -
  have 3: "setElementText node text s =
           s\<lparr>heap := (heap s)(t := (heap s t)\<lparr>nodeValue := text\<rparr>)\<rparr>"
    if "childNodes (heap s node) = before @ t # after"
      and "nodeName (heap s t) = ''#text''"
      and "\<forall>c \<in> set before. nodeName (heap s c) \<noteq> ''#text''"
    for before t after
  proof -
    have "find (\<lambda>c. nodeName (heap s c) = ''#text'') (childNodes (heap s node)) = Some t"
      using that find_first [of "\<lambda>c. nodeName (heap s c) = ''#text''" t before after]
      by simp
    then show ?thesis by (simp add: setElementText_def set_nodeValue_def)
  qed
  have 4: "heap (setElementText node text s) =
           (heap s)(node := (heap s node)\<lparr>childNodes := childNodes (heap s node) @ [nextId s]\<rparr>,
                    nextId s := \<lparr>nodeName = ''#text'', parentNode = Some node,
                                 childNodes = [], nodeValue = text, style = None,
                                 internal_transform = None, yogaNode = None\<rparr>)
         \<and> nextId (setElementText node text s) = Suc (nextId s)
         \<and> layout_calls (setElementText node text s) = layout_calls s
         \<and> console_error (setElementText node text s) = console_error s"
    if "\<forall>c \<in> set (childNodes (heap s node)). nodeName (heap s c) \<noteq> ''#text''"
      and "node < nextId s" and "nextId s \<notin> set (childNodes (heap s node))"
  proof -
    have "find (\<lambda>c. nodeName (heap s c) = ''#text'') (childNodes (heap s node)) = None"
      using that(1) by (simp add: find_None_iff)
    then show ?thesis
      using that(2,3)
      by (simp add: setElementText_def new_TextNode_def insertNode_def set_childNodes_def
            set_parentNode_def Let_def remove1_idem)
  qed
  show ?thesis using 3 4 by blast
qed

lemma setText_cases:
  "(nodeName (heap s node) = ''#text'' \<or> nodeName (heap s node) = ''#comment'' \<longrightarrow>
      setText receiver node text s =
        (None, s\<lparr>heap := (heap s)(node := (heap s node)\<lparr>nodeValue := text\<rparr>)\<rparr>))
   \<and> (nodeName (heap s node) \<noteq> ''#text'' \<and> nodeName (heap s node) \<noteq> ''#comment'' \<longrightarrow>
      setText ThisUndefined node text s =
        (Some TypeError, s\<lparr>console_error := console_error s @ [[''TODO: setText'', text]]\<rparr>)
      \<and> setText ThisOptions node text s =
        (None, setElementText node text
                 (s\<lparr>console_error := console_error s @ [[''TODO: setText'', text]]\<rparr>)))"
  by (simp add: setText_def set_nodeValue_def Let_def)

text \<open>
  Claim C7 says that \<^verbatim>\<open>setText\<close> on an element is redirected to the element-text path.
  The code writes the redirection as \<^verbatim>\<open>this.setElementText(node, text)\<close>, and the
  renderer calls \<^verbatim>\<open>setText\<close> with no \<^verbatim>\<open>this\<close>: on an element with two text children the
  call prints to the error console and throws a \<^verbatim>\<open>TypeError\<close>, and the value of no
  text child is replaced. (On a text or a comment node the value is replaced, and
  \<^verbatim>\<open>setElementText\<close>, called by itself, does what the claim says: the two lemmas
  above.)
\<close>

theorem setText_on_element_throws:
  "hostSetText 0 ''x'' box_two_texts =
     (Some TypeError, box_two_texts\<lparr>console_error := [[''TODO: setText'', ''x'']]\<rparr>)"
  by (simp add: hostSetText_def setText_def box_two_texts_def dom_of_def mk_node_def)

subsection \<open>What removeNode preserves, and when it returns\<close>

lemma array_map_inv:
  assumes "\<And>x t t'. P t \<Longrightarrow> callback x t = Some t' \<Longrightarrow> P t'"
  shows "P s \<Longrightarrow> array_map callback arr k m s = Some s' \<Longrightarrow> P s'"
proof (induction m arbitrary: k s)
  case 0
  then show ?case by simp
next
  case (Suc m)
  show ?case
  proof (cases "k < length (arr s)")
    case True
    then obtain t where t: "callback (arr s ! k) s = Some t"
      and r: "array_map callback arr (Suc k) m t = Some s'"
      using Suc.prems(2) by (auto split: option.splits)
    have "P t" using assms Suc.prems(1) t by blast
    then show ?thesis using Suc.IH r by blast
  next
    case False
    then show ?thesis using Suc by simp
  qed
qed

lemma array_map_total:
  assumes "\<And>x t. Inv t \<Longrightarrow> x \<in> set (arr t) \<Longrightarrow> \<exists>t'. callback x t = Some t' \<and> Inv t'"
  shows "Inv s \<Longrightarrow> \<exists>s'. array_map callback arr k m s = Some s' \<and> Inv s'"
proof (induction m arbitrary: k s)
  case 0
  then show ?case by simp
next
  case (Suc m)
  show ?case
  proof (cases "k < length (arr s)")
    case True
    then have "arr s ! k \<in> set (arr s)" by simp
    then obtain t where t: "callback (arr s ! k) s = Some t" and "Inv t"
      using assms Suc.prems by blast
    then show ?thesis using Suc.IH [of t "Suc k"] True by simp
  next
    case False
    then show ?thesis using Suc by simp
  qed
qed

lemma detach_nextId: "nextId (removeNode_detach n s) = nextId s"
  by (simp add: removeNode_detach_def Let_def set_childNodes_def set_parentNode_def
        layout_call_def split: option.splits)

lemma detach_parentNode:
  "parentNode (heap (removeNode_detach m s) n) = (if n = m then None else parentNode (heap s n))"
  by (simp add: removeNode_detach_def Let_def set_childNodes_def set_parentNode_def
        layout_call_def split: option.splits)

lemma splice_or_not:
  "(if indexOf cs m > - 1 then set_childNodes p (splice_del cs (nat (indexOf cs m)) 1) s else s)
   = (if m \<in> set cs then set_childNodes p (remove1 m cs) s else s)"
  by (simp add: indexOf_neg_iff splice_del_indexOf del: One_nat_def)

lemma detach_childNodes:
  "childNodes (heap (removeNode_detach m s) q) =
     (if parentNode (heap s m) = Some q then remove1 m (childNodes (heap s q))
      else childNodes (heap s q))"
proof (cases "parentNode (heap s m)")
  case None
  then show ?thesis by (simp add: removeNode_detach_def)
next
  case (Some p)
  have "removeNode_detach m s =
     (let s1 = (if m \<in> set (childNodes (heap s p))
                then set_childNodes p (remove1 m (childNodes (heap s p))) s else s);
          s2 = (case yogaNode (heap s1 m) of
                  None \<Rightarrow> s1
                | Some y \<Rightarrow>
                    layout_call (FreeRecursive y)
                      (layout_call (UnsetMeasureFunc y)
                         (case yogaNode (heap s1 p) of
                            None \<Rightarrow> s1
                          | Some py \<Rightarrow> layout_call (RemoveChild py y) s1)))
      in set_parentNode m None s2)"
    using Some unfolding removeNode_detach_def Let_def splice_or_not by simp
  then show ?thesis
    using Some
    by (simp add: Let_def set_childNodes_def set_parentNode_def layout_call_def remove1_idem
          split: option.splits)
qed

lemma detach_detached:
  "parentNode (heap s n) = None \<Longrightarrow> removeNode_detach n s = s"
  by (simp add: removeNode_detach_def)

lemma removeNode_inv:
  assumes "\<And>n t. P t \<Longrightarrow> P (removeNode_detach n t)"
  shows "P s \<Longrightarrow> removeNode fuel node s = Some s' \<Longrightarrow> P s'"
proof (induction fuel arbitrary: node s s')
  case 0
  then show ?case by simp
next
  case (Suc fuel)
  from Suc.prems(2) obtain s1 where
    s1: "(if nodeName (heap s node) \<noteq> ''#comment'' \<and> nodeName (heap s node) \<noteq> ''#text''
          then array_map (removeNode fuel) (\<lambda>t. childNodes (heap t node)) 0
                 (length (childNodes (heap s node))) s
          else Some s) = Some s1"
    and s': "s' = removeNode_detach node s1"
    by (auto split: option.splits)
  have "P s1"
  proof (cases "nodeName (heap s node) \<noteq> ''#comment'' \<and> nodeName (heap s node) \<noteq> ''#text''")
    case True
    then have "array_map (removeNode fuel) (\<lambda>t. childNodes (heap t node)) 0
                 (length (childNodes (heap s node))) s = Some s1"
      using s1 by simp
    then show ?thesis
      using array_map_inv [of P "removeNode fuel"] Suc.IH Suc.prems(1) by blast
  next
    case False
    then show ?thesis using s1 Suc.prems(1) by auto
  qed
  then show ?case using assms s' by simp
qed

lemma removeNode_keeps_detached:
  "parentNode (heap s x) = None \<Longrightarrow> removeNode fuel node s = Some s' \<Longrightarrow>
   parentNode (heap s' x) = None"
  by (rule removeNode_inv [where P = "\<lambda>t. parentNode (heap t x) = None"])
     (simp_all add: detach_parentNode)

lemma array_map_removeNode_keeps_detached:
  "parentNode (heap s x) = None \<Longrightarrow> array_map (removeNode fuel) arr k m s = Some s' \<Longrightarrow>
   parentNode (heap s' x) = None"
  by (rule array_map_inv [where P = "\<lambda>t. parentNode (heap t x) = None"])
     (auto intro: removeNode_keeps_detached)

lemma ranked_detach: "ranked h s \<Longrightarrow> ranked h (removeNode_detach n s)"
  unfolding ranked_def
  by (auto simp: detach_nextId detach_childNodes dest: notin_set_remove1)

lemma removeNode_total:
  "ranked h (s :: 'v dom) \<Longrightarrow> node < nextId s \<Longrightarrow> h node < fuel \<Longrightarrow>
   \<exists>s'. removeNode fuel node s = Some s' \<and> ranked h s' \<and> nextId s' = nextId s"
proof (induction fuel arbitrary: node s)
  case 0
  then show ?case by simp
next
  case (Suc fuel)
  let ?Inv = "\<lambda>t :: 'v dom. ranked h t \<and> nextId t = nextId s"
  have step: "\<exists>t'. removeNode fuel x t = Some t' \<and> ?Inv t'"
    if "?Inv t" and "x \<in> set (childNodes (heap t node))" for x t
  proof -
    have "x < nextId t \<and> h x < h node"
      using that Suc.prems(2) by (auto simp: ranked_def)
    then show ?thesis
      using Suc.IH [of t x] that(1) Suc.prems(3) by auto
  qed
  have "\<exists>s1. (if nodeName (heap s node) \<noteq> ''#comment'' \<and> nodeName (heap s node) \<noteq> ''#text''
          then array_map (removeNode fuel) (\<lambda>t. childNodes (heap t node)) 0
                 (length (childNodes (heap s node))) s
          else Some s) = Some s1 \<and> ?Inv s1"
  proof (cases "nodeName (heap s node) \<noteq> ''#comment'' \<and> nodeName (heap s node) \<noteq> ''#text''")
    case True
    have "\<exists>s1. array_map (removeNode fuel) (\<lambda>t. childNodes (heap t node)) 0
                 (length (childNodes (heap s node))) s = Some s1 \<and> ?Inv s1"
      by (rule array_map_total [where Inv = ?Inv]) (use step Suc.prems(1) in auto)
    then show ?thesis using True by simp
  next
    case False
    then show ?thesis using Suc.prems(1) by auto
  qed
  then obtain s1 where s1: "(if nodeName (heap s node) \<noteq> ''#comment'' \<and> nodeName (heap s node) \<noteq> ''#text''
          then array_map (removeNode fuel) (\<lambda>t. childNodes (heap t node)) 0
                 (length (childNodes (heap s node))) s
          else Some s) = Some s1" and inv: "?Inv s1"
    by blast
  have "removeNode (Suc fuel) node s = Some (removeNode_detach node s1)"
    using s1 by simp
  then show ?case using inv by (simp add: ranked_detach detach_nextId)
qed

subsection \<open>Tree consistency\<close>

lemma tc_detach: "tree_consistent s \<Longrightarrow> tree_consistent (removeNode_detach m s)"
  unfolding tree_consistent_def
  by (auto simp: detach_nextId detach_parentNode detach_childNodes split: option.splits)

lemma tc_removeNode:
  "tree_consistent s \<Longrightarrow> removeNode fuel node s = Some s' \<Longrightarrow> tree_consistent s'"
  by (rule removeNode_inv [where P = tree_consistent]) (simp_all add: tc_detach)

lemma distinct_insert_mid:
  "distinct (xs @ [x] @ ys) \<longleftrightarrow> distinct (xs @ ys) \<and> x \<notin> set (xs @ ys)"
  by auto

lemma insertNode_nextId: "nextId (insertNode parent el anchor s) = nextId s"
  by (simp add: insertNode_def Let_def set_childNodes_def set_parentNode_def)

lemma insertNode_parentNode:
  "parentNode (heap (insertNode parent el anchor s) n) =
     (if n = el then Some parent else parentNode (heap s n))"
  by (simp add: insertNode_def Let_def set_childNodes_def set_parentNode_def)

lemma insertNode_childNodes_other:
  "q \<noteq> parent \<Longrightarrow> childNodes (heap (insertNode parent el anchor s) q) = childNodes (heap s q)"
  by (simp add: insertNode_def Let_def set_childNodes_def set_parentNode_def)

lemma take_drop_set: "set (take i cs) \<union> set (drop i cs) = set cs"
  using set_append [of "take i cs" "drop i cs"] by simp

text \<open>The list that \<open>insertNode\<close> stores: \<open>el\<close> put into \<open>cs\<close>, which does not hold it.\<close>

lemma insertNode_childNodes_self:
  "childNodes (heap (insertNode parent el anchor s) parent) =
     (case anchor of
        None \<Rightarrow> remove1 el (childNodes (heap s parent)) @ [el]
      | Some a \<Rightarrow>
          (if a \<in> set (remove1 el (childNodes (heap s parent)))
           then take (nat (indexOf (remove1 el (childNodes (heap s parent))) a))
                  (remove1 el (childNodes (heap s parent)))
                @ [el]
                @ drop (nat (indexOf (remove1 el (childNodes (heap s parent))) a))
                    (remove1 el (childNodes (heap s parent)))
           else remove1 el (childNodes (heap s parent)) @ [el]))"
  by (simp add: insertNode_def Let_def set_childNodes_def set_parentNode_def)

lemma set_remove1_insert: "insert x (set (remove1 x xs)) = insert x (set xs)"
  by (induction xs) auto

lemma insertNode_childNodes_set:
  "set (childNodes (heap (insertNode parent el anchor s) parent)) =
     insert el (set (childNodes (heap s parent)))"
proof -
  have "set (take i cs @ [el] @ drop i cs) = insert el (set cs)" for i and cs :: "nat list"
    using take_drop_set [of i cs] by auto
  then have "set (childNodes (heap (insertNode parent el anchor s) parent)) =
     insert el (set (remove1 el (childNodes (heap s parent))))"
    unfolding insertNode_childNodes_self by (simp split: option.splits)
  then show ?thesis by (simp only: set_remove1_insert)
qed

lemma insertNode_childNodes_distinct:
  assumes "distinct (childNodes (heap s parent))"
  shows "distinct (childNodes (heap (insertNode parent el anchor s) parent))"
proof -
  let ?cs = "remove1 el (childNodes (heap s parent))"
  have d: "distinct ?cs" and n: "el \<notin> set ?cs"
    using assms by simp_all
  have "distinct (take i ?cs @ [el] @ drop i ?cs)" for i
    using distinct_insert_mid [of "take i ?cs" el "drop i ?cs"] take_drop_set [of i ?cs] d n
    by (metis append_take_drop_id)
  then show ?thesis
    unfolding insertNode_childNodes_self using d n by (auto split: option.splits)
qed

lemma tc_insert:
  assumes "tree_consistent s"
  shows "tree_consistent (insert_op el parent anchor s)"
  unfolding tree_consistent_def insert_op_def
proof (intro ballI conjI)
  fix n
  assume "n \<in> set [0 ..< nextId (insertNode parent el anchor s)]"
  then have n: "n \<in> set [0 ..< nextId s]" by (simp add: insertNode_nextId)
  have old: "case parentNode (heap s n) of None \<Rightarrow> True
             | Some p \<Rightarrow> n \<in> set (childNodes (heap s p))"
    and dist: "distinct (childNodes (heap s n))"
    using assms(1) n unfolding tree_consistent_def by blast+
  show "case parentNode (heap (insertNode parent el anchor s) n) of None \<Rightarrow> True
        | Some p \<Rightarrow> n \<in> set (childNodes (heap (insertNode parent el anchor s) p))"
  proof (cases "n = el")
    case True
    then show ?thesis by (simp add: insertNode_parentNode insertNode_childNodes_set)
  next
    case False
    show ?thesis
    proof (cases "parentNode (heap s n)")
      case None
      then show ?thesis using False by (simp add: insertNode_parentNode)
    next
      case (Some p)
      then have "n \<in> set (childNodes (heap s p))" using old by simp
      then have "n \<in> set (childNodes (heap (insertNode parent el anchor s) p))"
        by (cases "p = parent")
           (simp_all add: insertNode_childNodes_set insertNode_childNodes_other)
      then show ?thesis using False Some by (simp add: insertNode_parentNode)
    qed
  qed
  show "distinct (childNodes (heap (insertNode parent el anchor s) n))"
    using dist
    by (cases "n = parent")
       (simp_all add: insertNode_childNodes_distinct insertNode_childNodes_other)
qed

text \<open>A node that is already where the call puts it: the nodes are left as they are.\<close>

lemma insertNode_idempotent:
  assumes "parentNode (heap s el) = Some parent"
    and "distinct (childNodes (heap s parent))"
    and "childNodes (heap s parent) = before @ el # after"
    and "anchor = (case after of [] \<Rightarrow> None | a # rest \<Rightarrow> Some a)"
  shows "heap (insertNode parent el anchor s) = heap s"
proof -
  have nb: "el \<notin> set before" and na: "el \<notin> set after"
    using assms(2,3) by auto
  have r: "remove1 el (childNodes (heap s parent)) = before @ after"
    using nb by (simp add: assms(3) remove1_append)
  have cs: "childNodes (heap (insertNode parent el anchor s) parent) = before @ el # after"
  proof (cases after)
    case Nil
    then show ?thesis
      using assms(4) unfolding insertNode_childNodes_self r by simp
  next
    case (Cons a rest)
    have "a \<notin> set before" using assms(2,3) Cons by auto
    then have "indexOf (before @ a # rest) a = int (length before)"
      by (rule indexOf_append)
    then show ?thesis
      using assms(4) Cons unfolding insertNode_childNodes_self r by simp
  qed
  show ?thesis
  proof
    fix n
    have "childNodes (heap (insertNode parent el anchor s) n) = childNodes (heap s n)"
      using cs assms(3) by (cases "n = parent") (simp_all add: insertNode_childNodes_other)
    moreover have "parentNode (heap (insertNode parent el anchor s) n) = parentNode (heap s n)"
      using assms(1) by (simp add: insertNode_parentNode)
    moreover have "dnode.more (heap (insertNode parent el anchor s) n) = dnode.more (heap s n)"
      "nodeName (heap (insertNode parent el anchor s) n) = nodeName (heap s n)"
      "nodeValue (heap (insertNode parent el anchor s) n) = nodeValue (heap s n)"
      "style (heap (insertNode parent el anchor s) n) = style (heap s n)"
      "internal_transform (heap (insertNode parent el anchor s) n) = internal_transform (heap s n)"
      "yogaNode (heap (insertNode parent el anchor s) n) = yogaNode (heap s n)"
      by (simp_all add: insertNode_def Let_def set_childNodes_def set_parentNode_def)
    ultimately show "heap (insertNode parent el anchor s) n = heap s n"
      by (simp add: dnode.equality)
  qed
qed

subsection \<open>Sequences of insert and remove, and the removal of a detached node\<close>

text \<open>
  Claim C3. Start from a state in which every allocated node that records a parent is
  in the \<open>childNodes\<close> of that parent and no \<open>childNodes\<close> of an allocated node holds a
  node twice. After every sequence of \<^verbatim>\<open>insert\<close> and \<^verbatim>\<open>remove\<close> calls that returns, the
  same is true again; a sequence is any sequence, so this holds after each call of it.
  (\<^verbatim>\<open>insert\<close> is \<open>insertNode\<close>, modelled from the spec.)
\<close>

theorem tree_consistent_run:
  assumes "tree_consistent s" and "run_ops fuel ops s = Some s'"
  shows "tree_consistent s'"
  using assms
proof (induction ops arbitrary: s)
  case Nil
  then show ?case by simp
next
  case (Cons op ops)
  show ?case
  proof (cases op)
    case (Insert el parent anchor)
    then have "tree_consistent (insert_op el parent anchor s)"
      using Cons.prems by (simp add: tc_insert)
    then show ?thesis using Cons Insert by simp
  next
    case (Remove node)
    then obtain t where t: "removeNode fuel node s = Some t"
      using Cons.prems(2) by (auto split: option.splits)
    then have "tree_consistent t" using Cons.prems(1) tc_removeNode by blast
    then show ?thesis using Cons Remove t by simp
  qed
qed

theorem tree_consistent_run_witness:
  "tree_consistent box_two_texts
   \<and> (case run_ops 2 [Insert 1 0 None, Insert 1 0 None, Insert 1 0 (Some 2), Remove 1,
                       Insert 1 0 None, Remove 0] box_two_texts of
         None \<Rightarrow> False
       | Some s' \<Rightarrow> tree_consistent s' \<and> childNodes (heap s' 0) = [1])"
proof -
  have a: "tree_consistent box_two_texts"
    by code_simp
  have c: "case run_ops 2 [Insert 1 0 None, Insert 1 0 None, Insert 1 0 (Some 2), Remove 1,
                       Insert 1 0 None, Remove 0] box_two_texts of
         None \<Rightarrow> False
       | Some s' \<Rightarrow> childNodes (heap s' 0) = [1]"
    by code_simp
  then obtain s' where r: "run_ops 2 [Insert 1 0 None, Insert 1 0 None, Insert 1 0 (Some 2),
                       Remove 1, Insert 1 0 None, Remove 0] box_two_texts = Some s'"
    and d: "childNodes (heap s' 0) = [1]"
    by (auto split: option.splits)
  show ?thesis
    using tree_consistent_run [OF a r] a r d by simp
qed

text \<open>
  What does hold of \<^verbatim>\<open>remove(node)\<close> on a node whose parent reference is \<^verbatim>\<open>null\<close>: it is
  the loop over the children and nothing else; it returns whenever the children of the
  allocated nodes are allocated and of lower rank and the depth allowed is at least the
  rank of the node; it leaves the node without a parent and a consistent tree
  consistent.
\<close>

lemma removeNode_on_detached:
  "(parentNode (heap s node) = None \<longrightarrow>
      removeNode (Suc fuel) node s =
        (if nodeName (heap s node) \<noteq> ''#comment'' \<and> nodeName (heap s node) \<noteq> ''#text''
         then array_map (removeNode fuel) (\<lambda>t. childNodes (heap t node)) 0
                (length (childNodes (heap s node))) s
         else Some s))
   \<and> (parentNode (heap s node) = None \<and> childNodes (heap s node) = [] \<longrightarrow>
        removeNode (Suc fuel) node s = Some s)
   \<and> (ranked h s \<and> node < nextId s \<and> h node \<le> fuel \<longrightarrow>
        (\<exists>s'. removeNode (Suc fuel) node s = Some s' \<and> parentNode (heap s' node) = None))
   \<and> (\<forall>s'. tree_consistent s \<and> removeNode (Suc fuel) node s = Some s' \<longrightarrow>
        tree_consistent s' \<and> parentNode (heap s' node) = None)"
proof -
  let ?loop = "array_map (removeNode fuel) (\<lambda>t. childNodes (heap t node)) 0
                (length (childNodes (heap s node))) s"
  have 1: "removeNode (Suc fuel) node s =
        (if nodeName (heap s node) \<noteq> ''#comment'' \<and> nodeName (heap s node) \<noteq> ''#text''
         then ?loop else Some s)"
    if d: "parentNode (heap s node) = None"
  proof (cases "nodeName (heap s node) \<noteq> ''#comment'' \<and> nodeName (heap s node) \<noteq> ''#text''")
    case True
    show ?thesis
    proof (cases ?loop)
      case None
      then show ?thesis using True by simp
    next
      case (Some s1)
      then have "parentNode (heap s1 node) = None"
        using d array_map_removeNode_keeps_detached by blast
      then have "removeNode_detach node s1 = s1" by (rule detach_detached)
      then show ?thesis using True Some by simp
    qed
  next
    case False
    then show ?thesis using d by (auto simp: detach_detached)
  qed
  have 2: "removeNode (Suc fuel) node s = Some s"
    if d: "parentNode (heap s node) = None" and e: "childNodes (heap s node) = []"
    using 1 [OF d] e by simp
  have after: "parentNode (heap s' node) = None" if "removeNode (Suc fuel) node s = Some s'" for s'
    using that by (auto simp: detach_parentNode split: option.splits)
  have 3: "\<exists>s'. removeNode (Suc fuel) node s = Some s' \<and> parentNode (heap s' node) = None"
    if r: "ranked h s" and n: "node < nextId s" and f: "h node \<le> fuel"
  proof -
    have "h node < Suc fuel" using f by simp
    then obtain s' where "removeNode (Suc fuel) node s = Some s'"
      using removeNode_total [OF r n] by blast
    then show ?thesis using after by blast
  qed
  have 4: "tree_consistent s' \<and> parentNode (heap s' node) = None"
    if "tree_consistent s" and "removeNode (Suc fuel) node s = Some s'" for s'
    using that tc_removeNode after by blast
  show ?thesis using 1 2 3 4 by blast
qed

text \<open>
  Claim C4 says that \<^verbatim>\<open>remove\<close> on a node with no parent still cleans up the descendants
  of the node, and that removing an already-removed node is a no-op. Take a root whose
  child is a box with two text children. \<^verbatim>\<open>remove(box)\<close> removes the first text child,
  misses the second one (the loop of \<^verbatim>\<open>childNodes.map\<close> over the array that shrinks, as
  in C2), detaches the box and frees its layout node. The box has no parent now, and the
  second \<^verbatim>\<open>remove(box)\<close> is not a no-op: it finds the child that was missed, takes it
  out of the box, and calls \<^verbatim>\<open>removeChild\<close> on the layout node of the box, which has been
  freed, then frees the layout node of the child.
\<close>

theorem remove_twice_not_noop:
  "map_option (\<lambda>s'. (childNodes (heap s' 1), parentNode (heap s' 1), parentNode (heap s' 3),
                       layout_calls s'))
     (run_ops (Suc (Suc fuel)) [Remove 1] root_box_two_texts)
   = Some ([3], None, Some 1,
           [RemoveChild 11 12, UnsetMeasureFunc 12, FreeRecursive 12,
            RemoveChild 10 11, UnsetMeasureFunc 11, FreeRecursive 11])
   \<and> map_option (\<lambda>s'. (childNodes (heap s' 1), parentNode (heap s' 1), parentNode (heap s' 3),
                       layout_calls s'))
     (run_ops (Suc (Suc fuel)) [Remove 1, Remove 1] root_box_two_texts)
   = Some ([], None, None,
           [RemoveChild 11 12, UnsetMeasureFunc 12, FreeRecursive 12,
            RemoveChild 10 11, UnsetMeasureFunc 11, FreeRecursive 11,
            RemoveChild 11 13, UnsetMeasureFunc 13, FreeRecursive 13])"
  by (simp add: root_box_two_texts_def dom_of_def mk_node_def removeNode_detach_def
        set_childNodes_def set_parentNode_def layout_call_def splice_del_def eval_nat_numeral)

end
